theory Spec2Isabelle
  imports Main "HOL-Library.Sublist" "HOL-Library.List_Lexorder" "HOL-Library.FSet"
begin

section \<open>Python strings\<close>

text \<open>
  A Python \<^verbatim>\<open>str\<close> is a sequence of Unicode code points, so it is modelled as a list of
  natural numbers; \<open>length\<close> and \<open>take\<close> then count code points, as Python's \<^verbatim>\<open>len\<close> and
  slicing do. ASCII literals of the source are written through \<open>str\<close>.
\<close>

type_synonym pystr = "nat list"

definition str :: "string \<Rightarrow> pystr" where
  "str cs = map of_char cs"

text \<open>\<^verbatim>\<open>s.startswith(p)\<close>, \<^verbatim>\<open>s.endswith(p)\<close> and \<^verbatim>\<open>p in s\<close> on strings.\<close>

definition startswith :: "pystr \<Rightarrow> pystr \<Rightarrow> bool" where
  "startswith s p = (take (length p) s = p)"

definition endswith :: "pystr \<Rightarrow> pystr \<Rightarrow> bool" where
  "endswith s p = (length p \<le> length s \<and> drop (length s - length p) s = p)"

fun contains :: "pystr \<Rightarrow> pystr \<Rightarrow> bool" where
  "contains [] p = (p = [])"
| "contains (c # cs) p = (take (length p) (c # cs) = p \<or> contains cs p)"

text \<open>
  \<^verbatim>\<open>str.isspace\<close> on one code point (the code points CPython's
  \<^verbatim>\<open>_PyUnicode_IsWhitespace\<close> accepts), and \<^verbatim>\<open>str.strip()\<close> with no argument.
\<close>

definition py_isspace :: "nat \<Rightarrow> bool" where
  "py_isspace c =
     ((9 \<le> c \<and> c \<le> 13) \<or> (28 \<le> c \<and> c \<le> 32) \<or> c = 133 \<or> c = 160 \<or> c = 5760
      \<or> (8192 \<le> c \<and> c \<le> 8202) \<or> c = 8232 \<or> c = 8233 \<or> c = 8239 \<or> c = 8287
      \<or> c = 12288)"

definition py_strip :: "pystr \<Rightarrow> pystr" where
  "py_strip s = rev (dropWhile py_isspace (rev (dropWhile py_isspace s)))"

section \<open>Library functions the program calls\<close>

text \<open>
  The program is glue around library calls whose results depend on the network, on the
  database or on tables of the Unicode standard. Each one is a field of the environment
  \<open>env\<close>; every theorem below holds for every environment.
  \<^item> \<open>http_get n url\<close>: what the \<open>n\<close>-th call \<^verbatim>\<open>requests.get(url, timeout=10)\<close> of the run
    does: it raises, or it returns a response with a status code and a body;
  \<^item> \<open>beautiful_soup body\<close>: \<^verbatim>\<open>BeautifulSoup(body, "lxml")\<close>, \<open>None\<close> when it raises;
  \<^item> \<open>create_document n page\<close>: whether the \<open>n\<close>-th call
    \<^verbatim>\<open>create_document("page", page)\<close> of the run returns (\<open>True\<close>) or raises;
  \<^item> \<open>urljoin base href\<close>: \<^verbatim>\<open>urllib.parse.urljoin\<close>, \<open>None\<close> when it raises \<^verbatim>\<open>ValueError\<close>;
  \<^item> \<open>lower\<close>: \<^verbatim>\<open>str.lower\<close>;
  \<^item> \<open>http_url url\<close>: what pydantic makes of \<open>url\<close> for the \<^verbatim>\<open>HttpUrl\<close> field of
    \<^verbatim>\<open>Page\<close>: the normalised URL it stores, \<open>None\<close> when it raises \<^verbatim>\<open>ValidationError\<close>;
  \<^item> \<open>bracketed_host_ok\<close> and \<open>nfkc_netloc_ok\<close>: the two checks of \<^verbatim>\<open>urlsplit\<close> that
    need the \<^verbatim>\<open>ipaddress\<close> and \<^verbatim>\<open>unicodedata\<close> modules.
\<close>

datatype http_result = Timeout | ConnectionError | Response int pystr

text \<open>
  A parsed document is the list of its elements in document order. An element carries
  its name, its attributes, its \<^verbatim>\<open>.string\<close> and its \<^verbatim>\<open>.get_text()\<close>; the document
  carries its \<^verbatim>\<open>.get_text(" ")\<close>.
\<close>

record tag =
  tag_name :: pystr
  tag_attrs :: "(pystr \<times> pystr) list"
  tag_string :: "pystr option"
  tag_text :: pystr

record soup =
  soup_tags :: "tag list"
  soup_text :: pystr

record page =
  url :: pystr
  title :: "pystr option"
  description :: "pystr option"
  keywords_matched :: "pystr list"
  snippet :: "pystr option"
  source :: "pystr option"
  image :: "pystr option"

record env =
  http_get :: "nat \<Rightarrow> pystr \<Rightarrow> http_result"
  beautiful_soup :: "pystr \<Rightarrow> soup option"
  create_document :: "nat \<Rightarrow> page \<Rightarrow> bool"
  urljoin :: "pystr \<Rightarrow> pystr \<Rightarrow> pystr option"
  lower :: "pystr \<Rightarrow> pystr"
  http_url :: "pystr \<Rightarrow> pystr option"
  bracketed_host_ok :: "pystr \<Rightarrow> bool"
  nfkc_netloc_ok :: "pystr \<Rightarrow> bool"

section \<open>\<^verbatim>\<open>urlparse\<close>: scheme and network location\<close>

text \<open>
  \<^verbatim>\<open>urllib.parse.urlparse\<close> as CPython 3.11 and 3.12 define it (through \<^verbatim>\<open>urlsplit\<close>),
  restricted to the two components the program reads:
  leading C0 control characters and spaces are stripped, tab, CR and LF are removed, a
  scheme is split off at the first colon when everything before it is a scheme
  character and the first character is an ASCII letter, and after \<^verbatim>\<open>//\<close> the network
  location runs to the first of \<^verbatim>\<open>/\<close>, \<^verbatim>\<open>?\<close>, \<^verbatim>\<open>#\<close>. \<open>None\<close> is \<^verbatim>\<open>ValueError\<close>.
\<close>

definition ascii_alpha :: "nat \<Rightarrow> bool" where
  "ascii_alpha c = ((65 \<le> c \<and> c \<le> 90) \<or> (97 \<le> c \<and> c \<le> 122))"

definition scheme_char :: "nat \<Rightarrow> bool" where
  "scheme_char c = (ascii_alpha c \<or> (48 \<le> c \<and> c \<le> 57) \<or> c = 43 \<or> c = 45 \<or> c = 46)"

definition ascii_lower :: "nat \<Rightarrow> nat" where
  "ascii_lower c = (if 65 \<le> c \<and> c \<le> 90 then c + 32 else c)"

definition split_scheme :: "pystr \<Rightarrow> pystr \<times> pystr" where
  "split_scheme u =
     (let pre = takeWhile (\<lambda>c. c \<noteq> 58) u in
      if length pre < length u \<and> pre \<noteq> [] \<and> ascii_alpha (hd pre) \<and> list_all scheme_char pre
      then (map ascii_lower pre, drop (Suc (length pre)) u)
      else ([], u))"

definition splitnetloc :: "pystr \<Rightarrow> pystr" where
  "splitnetloc u = takeWhile (\<lambda>c. c \<noteq> 47 \<and> c \<noteq> 63 \<and> c \<noteq> 35) (drop 2 u)"

definition bracketed_host :: "pystr \<Rightarrow> pystr" where
  "bracketed_host n = takeWhile (\<lambda>c. c \<noteq> 93) (drop 1 (dropWhile (\<lambda>c. c \<noteq> 91) n))"

definition checknetloc :: "env \<Rightarrow> pystr \<Rightarrow> bool" where
  "checknetloc e n = (n = [] \<or> list_all (\<lambda>c. c < 128) n \<or> nfkc_netloc_ok e n)"

record parse_result =
  scheme :: pystr
  netloc :: pystr

definition urlparse :: "env \<Rightarrow> pystr \<Rightarrow> parse_result option" where
  "urlparse e u0 =
     (let u1 = dropWhile (\<lambda>c. c \<le> 32) u0;
          u2 = filter (\<lambda>c. c \<noteq> 9 \<and> c \<noteq> 13 \<and> c \<noteq> 10) u1;
          (sch, u3) = split_scheme u2;
          n = (if take 2 u3 = [47, 47] then splitnetloc u3 else [])
      in if (91 \<in> set n) \<noteq> (93 \<in> set n) then None
         else if 91 \<in> set n \<and> \<not> bracketed_host_ok e (bracketed_host n) then None
         else if \<not> checknetloc e n then None
         else Some \<lparr>scheme = sch, netloc = n\<rparr>)"

section \<open>The URL validator\<close>

definition BASE_DOMAIN :: pystr where
  "BASE_DOMAIN = str ''https://www.mezzofy.com''"

definition is_valid_mezzofy_url :: "env \<Rightarrow> pystr \<Rightarrow> bool" where
  "is_valid_mezzofy_url e u =
     (case urlparse e u of
        None \<Rightarrow> False
      | Some parsed \<Rightarrow>
          endswith (netloc parsed) (str ''mezzofy.com'')
          \<and> (scheme parsed = str ''http'' \<or> scheme parsed = str ''https''))"

section \<open>The page extractor\<close>

definition KEYWORDS :: "pystr list" where
  "KEYWORDS = map str
     [''sme'', ''smb'', ''pricing'', ''features'', ''merchant'', ''e-commerce'', ''ecommerce'',
      ''pos'', ''coupon'', ''loyalty'', ''reward'', ''subscription'', ''payment'', ''api'',
      ''docs'']"

datatype error =
    HTTPException int pystr
  | ValueError
  | ValidationError
  | KeyError
  | IndexError

text \<open>
  \<^verbatim>\<open>soup.find(name, attrs=...)\<close>: the first element in document order with that name
  whose attributes have the wanted values; \<^verbatim>\<open>tag.get(key, None)\<close>.
\<close>

definition find_tag :: "soup \<Rightarrow> pystr \<Rightarrow> (pystr \<times> pystr) list \<Rightarrow> tag option" where
  "find_tag s nm want =
     List.find (\<lambda>t. tag_name t = nm \<and> list_all (\<lambda>(k, v). map_of (tag_attrs t) k = Some v) want)
       (soup_tags s)"

definition tag_get :: "tag \<Rightarrow> pystr \<Rightarrow> pystr option" where
  "tag_get t k = map_of (tag_attrs t) k"

text \<open>
  \<^verbatim>\<open>extract_info\<close>. The fields are computed as the source computes them; the constructor
  \<^verbatim>\<open>Page(...)\<close> validates \<^verbatim>\<open>url\<close> as an \<^verbatim>\<open>HttpUrl\<close>: it raises when it is not one, and
  stores the URL as pydantic normalises it otherwise.
\<close>

definition extract_info :: "env \<Rightarrow> pystr \<Rightarrow> soup \<Rightarrow> error + page" where
  "extract_info e u s =
     (let title' =
            (case find_tag s (str ''title'') [] of
               None \<Rightarrow> None
             | Some t \<Rightarrow>
                 (case tag_string t of
                    None \<Rightarrow> None
                  | Some x \<Rightarrow> if x \<noteq> [] then Some (py_strip x) else None));
          desc_tag = find_tag s (str ''meta'') [(str ''name'', str ''description'')];
          description' =
            (case desc_tag of None \<Rightarrow> None | Some t \<Rightarrow> tag_get t (str ''content''));
          og_img_tag = find_tag s (str ''meta'') [(str ''property'', str ''og:image'')];
          image' =
            (case og_img_tag of None \<Rightarrow> None | Some t \<Rightarrow> tag_get t (str ''content''));
          snippet' =
            (case find_tag s (str ''p'') [] of
               None \<Rightarrow> None
             | Some p \<Rightarrow>
                 if tag_text p \<noteq> [] then Some (take 240 (py_strip (tag_text p))) else None);
          text = lower e (soup_text s);
          matched = sorted_list_of_set (set (filter (contains text) KEYWORDS))
      in case http_url e u of
           None \<Rightarrow> Inl ValidationError
         | Some u' \<Rightarrow>
             Inr \<lparr>url = u', title = title', description = description',
                  keywords_matched = matched, snippet = snippet',
                  source = Some (str ''mezzofy''), image = image'\<rparr>)"

section \<open>The crawl loop\<close>

record crawl_request =
  start_url :: "pystr option"
  max_pages :: int

text \<open>
  The local variables of \<^verbatim>\<open>crawl\<close>, and the two traces of what the run did to the
  outside: the URLs passed to \<^verbatim>\<open>requests.get\<close>, in order, and the pages passed to
  \<^verbatim>\<open>create_document\<close>, each with whether the call returned.
\<close>

record crawl_state =
  to_visit :: "pystr list"
  visited :: "pystr fset"
  saved :: nat
  requests :: "pystr list"
  inserts :: "(page \<times> bool) list"

definition fetch_page :: "env \<Rightarrow> nat \<Rightarrow> pystr \<Rightarrow> soup option" where
  "fetch_page e n u =
     (case http_get e n u of
        Timeout \<Rightarrow> None
      | ConnectionError \<Rightarrow> None
      | Response code body \<Rightarrow> if code \<noteq> 200 then None else beautiful_soup e body)"

text \<open>\<^verbatim>\<open>soup.find_all("a", href=True)\<close>.\<close>

definition find_all_a_href :: "soup \<Rightarrow> tag list" where
  "find_all_a_href s =
     filter (\<lambda>t. tag_name t = str ''a'' \<and> tag_get t (str ''href'') \<noteq> None) (soup_tags s)"

text \<open>The \<^verbatim>\<open>try\<close> block around \<^verbatim>\<open>create_document\<close>.\<close>

definition save_page :: "env \<Rightarrow> page \<Rightarrow> crawl_state \<Rightarrow> crawl_state" where
  "save_page e pg st =
     (let ok = create_document e (length (inserts st)) pg in
      st\<lparr>saved := (if ok then saved st + 1 else saved st),
         inserts := inserts st @ [(pg, ok)]\<rparr>)"

text \<open>The \<^verbatim>\<open>for a in soup.find_all(...)\<close> loop; an exception ends it with the state so far.\<close>

fun discover :: "env \<Rightarrow> pystr \<Rightarrow> tag list \<Rightarrow> crawl_state \<Rightarrow> crawl_state \<times> error option" where
  "discover e current [] st = (st, None)"
| "discover e current (a # as) st =
     (case tag_get a (str ''href'') of
        None \<Rightarrow> (st, Some KeyError)
      | Some h \<Rightarrow>
          (let href = py_strip h in
           if startswith href (str ''#'') \<or> startswith href (str ''mailto:'')
           then discover e current as st
           else
             (case urljoin e current href of
                None \<Rightarrow> (st, Some ValueError)
              | Some absolute \<Rightarrow>
                  if is_valid_mezzofy_url e absolute \<and> absolute |\<notin>| visited st
                     \<and> absolute \<notin> set (to_visit st)
                  then discover e current as (st\<lparr>to_visit := to_visit st @ [absolute]\<rparr>)
                  else discover e current as st)))"

text \<open>One iteration of the \<^verbatim>\<open>while\<close> loop.\<close>

definition loop_body :: "env \<Rightarrow> crawl_state \<Rightarrow> crawl_state \<times> error option" where
  "loop_body e st =
     (case to_visit st of
        [] \<Rightarrow> (st, Some IndexError)
      | current # rest \<Rightarrow>
          (let st1 = st\<lparr>to_visit := rest\<rparr> in
           if current |\<in>| visited st1 then (st1, None)
           else
             (let st2 = st1\<lparr>visited := finsert current (visited st1)\<rparr>;
                  st3 = st2\<lparr>requests := requests st2 @ [current]\<rparr>
              in case fetch_page e (length (requests st2)) current of
                   None \<Rightarrow> (st3, None)
                 | Some sp \<Rightarrow>
                     (case extract_info e current sp of
                        Inl err \<Rightarrow> (st3, Some err)
                      | Inr page_model \<Rightarrow>
                          discover e current (find_all_a_href sp)
                            (if keywords_matched page_model \<noteq> []
                             then save_page e page_model st3 else st3)))))"

definition loop_cond :: "int \<Rightarrow> crawl_state \<Rightarrow> bool" where
  "loop_cond mp st = (to_visit st \<noteq> [] \<and> int (fcard (visited st)) < mp)"

function crawl_loop :: "env \<Rightarrow> int \<Rightarrow> crawl_state \<Rightarrow> crawl_state \<times> error option" where
  "crawl_loop e mp st =
     (if loop_cond mp st
      then (case loop_body e st of
              (st', None) \<Rightarrow> crawl_loop e mp st'
            | (st', Some err) \<Rightarrow> (st', Some err))
      else (st, None))"
  by pat_completeness auto
termination
proof (relation "measures [\<lambda>(e, mp, st). nat (mp - int (fcard (visited st))),
                           \<lambda>(e, mp, st). length (to_visit st)]")
  show "wf (measures [\<lambda>(e, mp, st). nat (mp - int (fcard (visited st))),
                      \<lambda>(e, mp, st). length (to_visit st)])"
    by simp
next
  fix e :: env and mp :: int and st :: crawl_state and st' :: crawl_state
    and eo :: "error option"
  assume c: "loop_cond mp st" and p: "(st', eo) = loop_body e st" and n: "eo = None"
  have dv: "visited (fst (discover e' c' hs s)) = visited s" for e' c' hs s
    by (induction e' c' hs s rule: discover.induct) (auto simp: Let_def split: option.splits)
  from c obtain current rest where tv: "to_visit st = current # rest"
    by (cases "to_visit st") (auto simp: loop_cond_def)
  from c have lt: "int (fcard (visited st)) < mp"
    by (simp add: loop_cond_def)
  show "((e, mp, st'), (e, mp, st))
          \<in> measures [\<lambda>(e, mp, st). nat (mp - int (fcard (visited st))),
                       \<lambda>(e, mp, st). length (to_visit st)]"
  proof (cases "current |\<in>| visited st")
    case True
    with tv p have "st' = st\<lparr>to_visit := rest\<rparr>"
      by (simp add: loop_body_def)
    with tv show ?thesis by simp
  next
    case False
    have "visited st' = finsert current (visited st)"
    proof -
      have "visited (fst (loop_body e st)) = finsert current (visited st)"
        using tv False
        by (simp add: loop_body_def Let_def dv save_page_def split: option.splits sum.splits)
      with p show ?thesis by (metis fst_conv)
    qed
    with False have "fcard (visited st') = Suc (fcard (visited st))"
      by (simp add: fcard_finsert_disjoint)
    with lt show ?thesis by simp
  qed
qed

text \<open>The JSON object \<^verbatim>\<open>{"visited": ..., "saved": ...}\<close> that \<^verbatim>\<open>crawl\<close> returns.\<close>

record summary =
  visited_count :: nat
  saved_count :: nat

text \<open>
  What a call of \<^verbatim>\<open>crawl\<close> did and gave: the requests it sent, the pages it passed to
  \<^verbatim>\<open>create_document\<close>, and the exception it raised or the summary it returned.
\<close>

record outcome =
  fetched :: "pystr list"
  submitted :: "(page \<times> bool) list"
  result :: "error + summary"

definition init_state :: "pystr \<Rightarrow> crawl_state" where
  "init_state start = \<lparr>to_visit = [start], visited = {||}, saved = 0, requests = [], inserts = []\<rparr>"

text \<open>\<^verbatim>\<open>req.start_url or BASE_DOMAIN\<close>: \<^verbatim>\<open>None\<close> and the empty string are falsy.\<close>

definition effective_start_url :: "crawl_request \<Rightarrow> pystr" where
  "effective_start_url req =
     (case start_url req of
        None \<Rightarrow> BASE_DOMAIN
      | Some u \<Rightarrow> if u \<noteq> [] then u else BASE_DOMAIN)"

definition crawl :: "env \<Rightarrow> crawl_request \<Rightarrow> outcome" where
  "crawl e req =
     (let start = effective_start_url req
      in if \<not> is_valid_mezzofy_url e start
         then \<lparr>fetched = [], submitted = [],
               result = Inl (HTTPException 400 (str ''start_url must be mezzofy.com''))\<rparr>
         else
           (case crawl_loop e (max_pages req) (init_state start) of
              (st, Some err) \<Rightarrow>
                \<lparr>fetched = requests st, submitted = inserts st, result = Inl err\<rparr>
            | (st, None) \<Rightarrow>
                \<lparr>fetched = requests st, submitted = inserts st,
                 result = Inr \<lparr>visited_count = fcard (visited st), saved_count = saved st\<rparr>\<rparr>))"

section \<open>States the loop reaches\<close>

text \<open>
  The states at the head of the \<^verbatim>\<open>while\<close> loop of a run that starts at \<open>start\<close> with the
  budget \<open>mp\<close>: the initial state, and the state after each iteration (also one that an
  exception ended).
\<close>

inductive reachable :: "env \<Rightarrow> int \<Rightarrow> pystr \<Rightarrow> crawl_state \<Rightarrow> bool" for e mp start where
  reach_init: "reachable e mp start (init_state start)"
| reach_step: "reachable e mp start st \<Longrightarrow> loop_cond mp st
               \<Longrightarrow> reachable e mp start (fst (loop_body e st))"

text \<open>
  The invariant of the loop: the queue has no duplicates and holds no visited URL; the
  requests sent are the visited URLs, each once; \<open>saved\<close> counts the inserts that returned;
  there are no more inserts than requests; every page passed to the database matched a
  keyword.
\<close>

definition crawl_inv :: "crawl_state \<Rightarrow> bool" where
  "crawl_inv st =
     (distinct (to_visit st) \<and> (\<forall>u \<in> set (to_visit st). u |\<notin>| visited st)
      \<and> distinct (requests st) \<and> set (requests st) = fset (visited st)
      \<and> saved st = length (filter snd (inserts st))
      \<and> length (inserts st) \<le> length (requests st)
      \<and> (\<forall>x \<in> set (inserts st). keywords_matched (fst x) \<noteq> []))"

text \<open>The state in which the loop of a run ends.\<close>

definition final_state :: "env \<Rightarrow> crawl_request \<Rightarrow> crawl_state" where
  "final_state e req = fst (crawl_loop e (max_pages req) (init_state (effective_start_url req)))"

text \<open>
  The exception the link loop raises, if any: it depends on the links and on \<^verbatim>\<open>urljoin\<close>
  only, not on the state.
\<close>

fun discover_error :: "env \<Rightarrow> pystr \<Rightarrow> tag list \<Rightarrow> error option" where
  "discover_error e current [] = None"
| "discover_error e current (a # as) =
     (case tag_get a (str ''href'') of
        None \<Rightarrow> Some KeyError
      | Some h \<Rightarrow>
          (let href = py_strip h in
           if startswith href (str ''#'') \<or> startswith href (str ''mailto:'')
           then discover_error e current as
           else
             (case urljoin e current href of
                None \<Rightarrow> Some ValueError
              | Some absolute \<Rightarrow> discover_error e current as)))"

text \<open>
  The part of the state that decides which URLs a run visits and in which order: the
  queue, the visited set and the requests sent.
\<close>

definition traversal :: "crawl_state \<Rightarrow> pystr list \<times> pystr fset \<times> pystr list" where
  "traversal st = (to_visit st, visited st, requests st)"

section \<open>A small site, for concrete runs\<close>

text \<open>
  The seed page has a title, a meta description, a paragraph, a link into the site
  and a link out of it. The seed answers 200, every other URL times out; the database
  accepts every insert; \<^verbatim>\<open>urljoin\<close> is called on absolute links only, which it returns;
  pydantic adds the path \<^verbatim>\<open>/\<close> to the seed URL, which has none.
\<close>

definition seed_soup :: soup where
  "seed_soup =
     \<lparr>soup_tags =
        [\<lparr>tag_name = str ''title'', tag_attrs = [],
          tag_string = Some (str ''Mezzofy Pricing''), tag_text = str ''Mezzofy Pricing''\<rparr>,
         \<lparr>tag_name = str ''meta'',
          tag_attrs = [(str ''name'', str ''description''), (str ''content'', str ''Plans'')],
          tag_string = None, tag_text = []\<rparr>,
         \<lparr>tag_name = str ''p'', tag_attrs = [],
          tag_string = Some (str '' Pricing and coupon ''), tag_text = str '' Pricing and coupon ''\<rparr>,
         \<lparr>tag_name = str ''a'', tag_attrs = [(str ''href'', str ''https://www.mezzofy.com/features'')],
          tag_string = Some (str ''More''), tag_text = str ''More''\<rparr>,
         \<lparr>tag_name = str ''a'', tag_attrs = [(str ''href'', str ''https://external.com'')],
          tag_string = Some (str ''Out''), tag_text = str ''Out''\<rparr>],
      soup_text = str ''Mezzofy Pricing  Pricing and coupon  More Out''\<rparr>"

definition blank_title_soup :: soup where
  "blank_title_soup =
     \<lparr>soup_tags =
        [\<lparr>tag_name = str ''title'', tag_attrs = [],
          tag_string = Some (str ''  ''), tag_text = str ''  ''\<rparr>],
      soup_text = str ''  ''\<rparr>"

definition demo_env :: env where
  "demo_env =
     \<lparr>http_get = (\<lambda>n u. if u = BASE_DOMAIN then Response 200 (str ''seed'') else Timeout),
      beautiful_soup = (\<lambda>body. if body = str ''seed'' then Some seed_soup else None),
      create_document = (\<lambda>n pg. True),
      urljoin = (\<lambda>base href. Some href),
      lower = map ascii_lower,
      http_url = (\<lambda>u. Some (if u = BASE_DOMAIN then BASE_DOMAIN @ str ''/'' else u)),
      bracketed_host_ok = (\<lambda>h. True),
      nfkc_netloc_ok = (\<lambda>n. True)\<rparr>"

text \<open>The same site with the network down and with the database down.\<close>

definition offline_env :: env where
  "offline_env = demo_env\<lparr>http_get := (\<lambda>n u. Timeout)\<rparr>"

definition no_db_env :: env where
  "no_db_env = demo_env\<lparr>create_document := (\<lambda>n pg. False)\<rparr>"

text \<open>The link of the seed page into the site, and the page extracted from the seed.\<close>

definition features_url :: pystr where
  "features_url = str ''https://www.mezzofy.com/features''"

definition features_link :: tag where
  "features_link =
     \<lparr>tag_name = str ''a'', tag_attrs = [(str ''href'', str ''https://www.mezzofy.com/features'')],
      tag_string = Some (str ''More''), tag_text = str ''More''\<rparr>"

definition seed_page :: page where
  "seed_page =
     \<lparr>url = str ''https://www.mezzofy.com/'', title = Some (str ''Mezzofy Pricing''),
      description = Some (str ''Plans''),
      keywords_matched = [str ''coupon'', str ''pricing''],
      snippet = Some (str ''Pricing and coupon''),
      source = Some (str ''mezzofy''), image = None\<rparr>"

text \<open>The other elements of the seed page, by name.\<close>

definition seed_title :: tag where
  "seed_title =
     \<lparr>tag_name = str ''title'', tag_attrs = [],
      tag_string = Some (str ''Mezzofy Pricing''), tag_text = str ''Mezzofy Pricing''\<rparr>"

definition seed_meta :: tag where
  "seed_meta =
     \<lparr>tag_name = str ''meta'',
      tag_attrs = [(str ''name'', str ''description''), (str ''content'', str ''Plans'')],
      tag_string = None, tag_text = []\<rparr>"

definition seed_paragraph :: tag where
  "seed_paragraph =
     \<lparr>tag_name = str ''p'', tag_attrs = [],
      tag_string = Some (str '' Pricing and coupon ''), tag_text = str '' Pricing and coupon ''\<rparr>"

definition out_link :: tag where
  "out_link =
     \<lparr>tag_name = str ''a'', tag_attrs = [(str ''href'', str ''https://external.com'')],
      tag_string = Some (str ''Out''), tag_text = str ''Out''\<rparr>"

section \<open>Strings: substring and prefix tests\<close>

lemma startswith_iff_prefix: "startswith s p \<longleftrightarrow> prefix p s"
proof
  assume "startswith s p"
  then have "take (length p) s = p" by (simp add: startswith_def)
  moreover have "prefix (take (length p) s) s" by (rule take_is_prefix)
  ultimately show "prefix p s" by simp
next
  assume "prefix p s"
  then obtain zs where "s = p @ zs" by (auto simp: prefix_def)
  then show "startswith s p" by (simp add: startswith_def)
qed

lemma contains_iff_sublist: "contains t p \<longleftrightarrow> sublist p t"
proof (induction t)
  case Nil
  then show ?case by auto
next
  case (Cons c cs)
  have "prefix p (c # cs) \<longleftrightarrow> take (length p) (c # cs) = p"
    using startswith_iff_prefix [of "c # cs" p] by (simp add: startswith_def)
  with Cons show ?case
    by (auto simp: sublist_Cons_right)
qed

section \<open>The link loop and the crawl loop keep the invariant\<close>

declare crawl_loop.simps [simp del]

lemma discover_rule:
  assumes "P st"
    and "\<And>s u. P s \<Longrightarrow> is_valid_mezzofy_url e u \<Longrightarrow> u |\<notin>| visited s \<Longrightarrow> u \<notin> set (to_visit s)
           \<Longrightarrow> P (s\<lparr>to_visit := to_visit s @ [u]\<rparr>)"
  shows "P (fst (discover e c hs st))"
  using assms(1)
proof (induction hs arbitrary: st)
  case Nil
  then show ?case by simp
next
  case (Cons a as)
  have "P (fst (discover e c as s))" if "P s" for s
    using that by (rule Cons.IH)
  with Cons.prems assms(2) show ?case
    by (auto simp: Let_def split: option.splits)
qed

lemma discover_visited: "visited (fst (discover e c hs st)) = visited st"
  by (rule discover_rule [where P = "\<lambda>s. visited s = visited st"]) simp_all

lemma discover_saved: "saved (fst (discover e c hs st)) = saved st"
  by (rule discover_rule [where P = "\<lambda>s. saved s = saved st"]) simp_all

lemma discover_requests: "requests (fst (discover e c hs st)) = requests st"
  by (rule discover_rule [where P = "\<lambda>s. requests s = requests st"]) simp_all

lemma discover_inserts: "inserts (fst (discover e c hs st)) = inserts st"
  by (rule discover_rule [where P = "\<lambda>s. inserts s = inserts st"]) simp_all

lemma discover_inv: "crawl_inv st \<Longrightarrow> crawl_inv (fst (discover e c hs st))"
  by (erule discover_rule) (simp add: crawl_inv_def)


lemma visited_step_inv:
  assumes "crawl_inv st" and "to_visit st = current # rest" and "current |\<notin>| visited st"
  shows "crawl_inv (st\<lparr>to_visit := rest, visited := finsert current (visited st),
                        requests := requests st @ [current]\<rparr>)"
  using assms by (auto simp: crawl_inv_def)

lemma save_step_inv:
  assumes "crawl_inv st" and "to_visit st = current # rest" and "current |\<notin>| visited st"
    and "keywords_matched pg \<noteq> []"
  shows "crawl_inv (save_page e pg (st\<lparr>to_visit := rest, visited := finsert current (visited st),
                        requests := requests st @ [current]\<rparr>))"
  using assms by (auto simp: crawl_inv_def save_page_def Let_def)

lemma skip_step_inv:
  assumes "crawl_inv st" and "to_visit st = current # rest"
  shows "crawl_inv (st\<lparr>to_visit := rest\<rparr>)"
  using assms by (auto simp: crawl_inv_def)

lemma loop_body_inv:
  assumes "crawl_inv st"
  shows "crawl_inv (fst (loop_body e st))"
proof (cases "to_visit st")
  case Nil
  with assms show ?thesis by (simp add: loop_body_def)
next
  case (Cons current rest)
  show ?thesis
  proof (cases "current |\<in>| visited st")
    case True
    with Cons skip_step_inv [OF assms Cons] show ?thesis
      by (simp add: loop_body_def)
  next
    case False
    note a = visited_step_inv [OF assms Cons False]
    note b = save_step_inv [OF assms Cons False]
    from Cons False a b show ?thesis
      by (auto simp: loop_body_def Let_def intro!: discover_inv split: option.splits sum.splits)
  qed
qed

lemma init_inv: "crawl_inv (init_state start)"
  by (simp add: crawl_inv_def init_state_def)

lemma reachable_inv: "reachable e mp start st \<Longrightarrow> crawl_inv st"
  by (induction rule: reachable.induct) (simp_all add: init_inv loop_body_inv)

lemma loop_body_visited_card:
  "fcard (visited (fst (loop_body e st))) \<le> Suc (fcard (visited st))"
proof (cases "to_visit st")
  case Nil
  then show ?thesis by (simp add: loop_body_def)
next
  case (Cons current rest)
  then show ?thesis
    by (auto simp: loop_body_def Let_def discover_visited save_page_def fcard_finsert_if
        split: option.splits sum.splits)
qed

lemma reachable_bound: "reachable e mp start st \<Longrightarrow> int (fcard (visited st)) \<le> max 0 mp"
proof (induction rule: reachable.induct)
  case reach_init
  show ?case by (simp add: init_state_def fcard_fempty)
next
  case (reach_step st)
  from reach_step.hyps(2) have "int (fcard (visited st)) < mp"
    by (simp add: loop_cond_def)
  with loop_body_visited_card [of e st] show ?case by simp
qed

lemma crawl_loop_reachable:
  "reachable e mp start st \<Longrightarrow> reachable e mp start (fst (crawl_loop e mp st))"
proof (induction e mp st rule: crawl_loop.induct)
  case (1 e mp st)
  show ?case
  proof (cases "loop_cond mp st")
    case False
    with 1 show ?thesis by (simp add: crawl_loop.simps)
  next
    case True
    with "1.prems" have r: "reachable e mp start (fst (loop_body e st))"
      by (rule reach_step)
    obtain st' eo where lb: "loop_body e st = (st', eo)" by (cases "loop_body e st")
    show ?thesis
    proof (cases eo)
      case None
      with "1.IH" [OF True lb [symmetric] None] r lb True show ?thesis
        by (simp add: crawl_loop.simps [of e mp st])
    next
      case (Some err)
      with r lb True show ?thesis
        by (simp add: crawl_loop.simps [of e mp st])
    qed
  qed
qed

section \<open>Evaluating concrete runs\<close>

lemmas url_eval_defs =
  is_valid_mezzofy_url_def urlparse_def split_scheme_def splitnetloc_def checknetloc_def
  endswith_def str_def ascii_alpha_def scheme_char_def ascii_lower_def bracketed_host_def

lemmas run_eval_defs =
  crawl_def effective_start_url_def crawl_loop.simps loop_cond_def loop_body_def init_state_def
  fetch_page_def save_page_def find_all_a_href_def startswith_def
  extract_info_def demo_env_def offline_env_def no_db_env_def seed_soup_def blank_title_soup_def
  find_tag_def tag_get_def
  KEYWORDS_def py_strip_def py_isspace_def Let_def BASE_DOMAIN_def
  sorted_list_of_set_sort_remdups fcard_finsert_if fcard_fempty

lemma sub_domain_in_scope: "is_valid_mezzofy_url e (str ''https://sub.mezzofy.com'')"
  by (simp add: url_eval_defs)

lemma path_suffix_out_of_scope: "\<not> is_valid_mezzofy_url e (str ''https://evil.com/mezzofy.com'')"
  by (simp add: url_eval_defs)

lemma host_prefix_out_of_scope: "\<not> is_valid_mezzofy_url e (str ''https://mezzofy.com.evil.com'')"
  by (simp add: url_eval_defs)

lemma base_domain_in_scope: "is_valid_mezzofy_url e BASE_DOMAIN"
  by (simp add: BASE_DOMAIN_def url_eval_defs)

section \<open>What a call of \<^verbatim>\<open>crawl\<close> returns\<close>

lemma crawl_rejected:
  "\<not> is_valid_mezzofy_url e (effective_start_url req) \<Longrightarrow>
   crawl e req = \<lparr>fetched = [], submitted = [],
                  result = Inl (HTTPException 400 (str ''start_url must be mezzofy.com''))\<rparr>"
  by (simp add: crawl_def)

lemma crawl_accepted:
  assumes "is_valid_mezzofy_url e (effective_start_url req)"
  shows "fetched (crawl e req) = requests (final_state e req)"
    and "submitted (crawl e req) = inserts (final_state e req)"
    and "result (crawl e req) = Inr s \<Longrightarrow>
           s = \<lparr>visited_count = fcard (visited (final_state e req)),
                saved_count = saved (final_state e req)\<rparr>"
  using assms
  by (auto simp: crawl_def final_state_def split: prod.splits option.splits)

lemma final_state_reachable:
  "reachable e (max_pages req) (effective_start_url req) (final_state e req)"
  unfolding final_state_def by (rule crawl_loop_reachable) (rule reach_init)

lemma crawl_traces_inv:
  "distinct (fetched (crawl e req))"
  "\<forall>x \<in> set (submitted (crawl e req)). keywords_matched (fst x) \<noteq> []"
  "length (submitted (crawl e req)) \<le> length (fetched (crawl e req))"
proof -
  have i: "crawl_inv (final_state e req)"
    using final_state_reachable by (rule reachable_inv)
  show "distinct (fetched (crawl e req))"
    using i crawl_accepted(1) [of e req] crawl_rejected [of e req]
    by (cases "is_valid_mezzofy_url e (effective_start_url req)") (simp_all add: crawl_inv_def)
  show "\<forall>x \<in> set (submitted (crawl e req)). keywords_matched (fst x) \<noteq> []"
    using i crawl_accepted(2) [of e req] crawl_rejected [of e req]
    by (cases "is_valid_mezzofy_url e (effective_start_url req)") (simp_all add: crawl_inv_def)
  show "length (submitted (crawl e req)) \<le> length (fetched (crawl e req))"
    using i crawl_accepted(1,2) [of e req] crawl_rejected [of e req]
    by (cases "is_valid_mezzofy_url e (effective_start_url req)") (simp_all add: crawl_inv_def)
qed

lemma crawl_result_counts:
  assumes "result (crawl e req) = Inr s"
  shows "visited_count s = length (fetched (crawl e req))"
    and "saved_count s = length (filter snd (submitted (crawl e req)))"
    and "int (visited_count s) \<le> max 0 (max_pages req)"
proof -
  have v: "is_valid_mezzofy_url e (effective_start_url req)"
  proof (rule ccontr)
    assume "\<not> is_valid_mezzofy_url e (effective_start_url req)"
    from crawl_rejected [OF this] assms show False by simp
  qed
  have i: "crawl_inv (final_state e req)"
    using final_state_reachable by (rule reachable_inv)
  note s = crawl_accepted(3) [OF v assms]
  from i have "fcard (visited (final_state e req)) = length (requests (final_state e req))"
    by (metis crawl_inv_def distinct_card fcard.rep_eq)
  with s crawl_accepted(1) [OF v] show "visited_count s = length (fetched (crawl e req))"
    by simp
  from i s crawl_accepted(2) [OF v]
  show "saved_count s = length (filter snd (submitted (crawl e req)))"
    by (simp add: crawl_inv_def)
  from s reachable_bound [OF final_state_reachable, of e req]
  show "int (visited_count s) \<le> max 0 (max_pages req)"
    by simp
qed

section \<open>The cases of one iteration\<close>

lemma discover_snd: "snd (discover e c hs st) = discover_error e c hs"
  by (induction hs arbitrary: st) (simp_all add: Let_def split: option.splits)

lemma discover_error_kinds:
  "discover_error e c hs = Some err \<Longrightarrow> err = ValueError \<or> err = KeyError"
  by (induction hs) (auto simp: Let_def split: option.splits if_splits)

lemma discover_error_no_key:
  "\<forall>a \<in> set hs. tag_get a (str ''href'') \<noteq> None \<Longrightarrow> discover_error e c hs \<noteq> Some KeyError"
  by (induction hs) (auto simp: Let_def split: option.splits if_splits)

lemma discover_error_links:
  "discover_error e c (find_all_a_href sp) = Some err \<Longrightarrow> err = ValueError"
  using discover_error_kinds [of e c "find_all_a_href sp" err]
    discover_error_no_key [of "find_all_a_href sp" e c]
  by (auto simp: find_all_a_href_def)

lemma extract_info_error: "extract_info e u s = Inl err \<Longrightarrow> err = ValidationError"
  by (auto simp: extract_info_def Let_def split: option.splits)

lemma save_page_fields:
  "to_visit (save_page e pg st) = to_visit st"
  "visited (save_page e pg st) = visited st"
  "requests (save_page e pg st) = requests st"
  "inserts (save_page e pg st) = inserts st @ [(pg, create_document e (length (inserts st)) pg)]"
  "saved (save_page e pg st)
     = saved st + (if create_document e (length (inserts st)) pg then 1 else 0)"
  by (simp_all add: save_page_def Let_def)

lemma loop_body_skip:
  assumes "to_visit st = current # rest" and "current |\<in>| visited st"
  shows "loop_body e st = (st\<lparr>to_visit := rest\<rparr>, None)"
  using assms by (simp add: loop_body_def)

lemma loop_body_fetch_failed:
  assumes "to_visit st = current # rest" and "current |\<notin>| visited st"
    and "fetch_page e (length (requests st)) current = None"
  shows "loop_body e st =
           (st\<lparr>to_visit := rest, visited := finsert current (visited st),
               requests := requests st @ [current]\<rparr>, None)"
  using assms by (simp add: loop_body_def)

lemma loop_body_invalid_page:
  assumes "to_visit st = current # rest" and "current |\<notin>| visited st"
    and "fetch_page e (length (requests st)) current = Some sp"
    and "extract_info e current sp = Inl err"
  shows "loop_body e st =
           (st\<lparr>to_visit := rest, visited := finsert current (visited st),
               requests := requests st @ [current]\<rparr>, Some err)"
  using assms by (simp add: loop_body_def)

lemma loop_body_page:
  assumes "to_visit st = current # rest" and "current |\<notin>| visited st"
    and "fetch_page e (length (requests st)) current = Some sp"
    and "extract_info e current sp = Inr pg"
  shows "loop_body e st =
           discover e current (find_all_a_href sp)
             (if keywords_matched pg \<noteq> []
              then save_page e pg (st\<lparr>to_visit := rest, visited := finsert current (visited st),
                                       requests := requests st @ [current]\<rparr>)
              else st\<lparr>to_visit := rest, visited := finsert current (visited st),
                      requests := requests st @ [current]\<rparr>)"
  using assms by (simp add: loop_body_def)

lemma loop_body_requests:
  assumes "to_visit st = current # rest" and "current |\<notin>| visited st"
  shows "requests (fst (loop_body e st)) = requests st @ [current]"
proof (cases "fetch_page e (length (requests st)) current")
  case None
  from loop_body_fetch_failed [OF assms None] show ?thesis by simp
next
  case (Some sp)
  show ?thesis
  proof (cases "extract_info e current sp")
    case (Inl err)
    from loop_body_invalid_page [OF assms Some Inl] show ?thesis by simp
  next
    case (Inr pg)
    from loop_body_page [OF assms Some Inr] show ?thesis
      by (simp add: discover_requests save_page_fields)
  qed
qed

lemma loop_body_error_kinds:
  assumes "to_visit st \<noteq> []" and "snd (loop_body e st) = Some err"
  shows "err = ValueError \<or> err = ValidationError"
proof -
  from assms(1) obtain current rest where tv: "to_visit st = current # rest"
    by (cases "to_visit st") auto
  show ?thesis
  proof (cases "current |\<in>| visited st")
    case True
    from loop_body_skip [OF tv True] assms(2) show ?thesis by simp
  next
    case False
    show ?thesis
    proof (cases "fetch_page e (length (requests st)) current")
      case None
      from loop_body_fetch_failed [OF tv False None] assms(2) show ?thesis by simp
    next
      case (Some sp)
      show ?thesis
      proof (cases "extract_info e current sp")
        case (Inl err')
        from loop_body_invalid_page [OF tv False Some Inl] assms(2) extract_info_error [OF Inl]
        show ?thesis by simp
      next
        case (Inr pg)
        from loop_body_page [OF tv False Some Inr] assms(2)
        have "discover_error e current (find_all_a_href sp) = Some err"
          by (simp add: discover_snd)
        then show ?thesis by (simp add: discover_error_links)
      qed
    qed
  qed
qed

lemma crawl_loop_step:
  assumes "loop_cond mp st"
  shows "crawl_loop e mp st =
           (case snd (loop_body e st) of
              None \<Rightarrow> crawl_loop e mp (fst (loop_body e st))
            | Some err \<Rightarrow> (fst (loop_body e st), Some err))"
  using assms by (subst crawl_loop.simps) (simp split: prod.splits option.splits)

lemma crawl_loop_stop: "\<not> loop_cond mp st \<Longrightarrow> crawl_loop e mp st = (st, None)"
  by (subst crawl_loop.simps) simp


lemma loop_body_requests_prefix: "prefix (requests st) (requests (fst (loop_body e st)))"
proof (cases "to_visit st")
  case Nil
  then show ?thesis by (simp add: loop_body_def)
next
  case (Cons current rest)
  show ?thesis
  proof (cases "current |\<in>| visited st")
    case True
    from loop_body_skip [OF Cons True] show ?thesis by simp
  next
    case False
    from loop_body_requests [OF Cons False] show ?thesis by simp
  qed
qed

lemma crawl_loop_requests_prefix:
  "prefix (requests st) (requests (fst (crawl_loop e mp st)))"
proof (induction e mp st rule: crawl_loop.induct)
  case (1 e mp st)
  show ?case
  proof (cases "loop_cond mp st")
    case False
    then show ?thesis by (simp add: crawl_loop_stop)
  next
    case True
    note p = loop_body_requests_prefix [of st e]
    show ?thesis
    proof (cases "snd (loop_body e st)")
      case None
      have "prefix (requests (fst (loop_body e st)))
              (requests (fst (crawl_loop e mp (fst (loop_body e st)))))"
        by (rule "1.IH" [OF True _ None]) simp
      with p True None show ?thesis
        by (simp add: crawl_loop_step)
    next
      case (Some err)
      with p True show ?thesis by (simp add: crawl_loop_step)
    qed
  qed
qed

lemma crawl_loop_error_kinds:
  "snd (crawl_loop e mp st) = Some err \<Longrightarrow> err = ValueError \<or> err = ValidationError"
proof (induction e mp st rule: crawl_loop.induct)
  case (1 e mp st)
  show ?case
  proof (cases "loop_cond mp st")
    case False
    with "1.prems" show ?thesis by (simp add: crawl_loop_stop)
  next
    case True
    then have ne: "to_visit st \<noteq> []" by (simp add: loop_cond_def)
    show ?thesis
    proof (cases "snd (loop_body e st)")
      case None
      from "1.prems" True None
      have n: "snd (crawl_loop e mp (fst (loop_body e st))) = Some err"
        by (simp add: crawl_loop_step)
      show ?thesis
      proof (rule "1.IH" [OF True _ None])
        show "(fst (loop_body e st), snd (loop_body e st)) = loop_body e st" by simp
        show "snd (crawl_loop e mp (fst (loop_body e st))) = Some err" by (rule n)
      qed
    next
      case (Some err')
      with "1.prems" True have "err' = err" by (simp add: crawl_loop_step)
      with Some loop_body_error_kinds [OF ne] show ?thesis by simp
    qed
  qed
qed

lemma first_request:
  assumes "1 \<le> mp"
  shows "take 1 (requests (fst (crawl_loop e mp (init_state start)))) = [start]"
proof -
  let ?st = "init_state start"
  have c: "loop_cond mp ?st"
    using assms by (simp add: loop_cond_def init_state_def fcard_fempty)
  have r: "requests (fst (loop_body e ?st)) = [start]"
    using loop_body_requests [of ?st start "[]" e] by (simp add: init_state_def)
  have "prefix (requests (fst (loop_body e ?st))) (requests (fst (crawl_loop e mp ?st)))"
  proof (cases "snd (loop_body e ?st)")
    case None
    with c crawl_loop_requests_prefix [of "fst (loop_body e ?st)" e mp] show ?thesis
      by (simp add: crawl_loop_step)
  next
    case (Some err)
    with c show ?thesis by (simp add: crawl_loop_step)
  qed
  with r obtain zs where "requests (fst (crawl_loop e mp ?st)) = [start] @ zs"
    by (auto simp: prefix_def)
  then show ?thesis by simp
qed

lemma crawl_error_kinds:
  assumes "result (crawl e req) = Inl err"
  shows "(\<not> is_valid_mezzofy_url e (effective_start_url req)
            \<and> err = HTTPException 400 (str ''start_url must be mezzofy.com''))
         \<or> (is_valid_mezzofy_url e (effective_start_url req)
            \<and> (err = ValueError \<or> err = ValidationError))"
proof (cases "is_valid_mezzofy_url e (effective_start_url req)")
  case False
  with assms crawl_rejected [OF False] show ?thesis by simp
next
  case True
  with assms
  have "snd (crawl_loop e (max_pages req) (init_state (effective_start_url req))) = Some err"
    by (auto simp: crawl_def split: prod.splits option.splits)
  with True crawl_loop_error_kinds show ?thesis by blast
qed

lemma crawl_400_iff:
  "result (crawl e req) = Inl (HTTPException 400 (str ''start_url must be mezzofy.com''))
     \<longleftrightarrow> \<not> is_valid_mezzofy_url e (effective_start_url req)"
  using crawl_error_kinds [of e req "HTTPException 400 (str ''start_url must be mezzofy.com'')"]
    crawl_rejected [of e req]
  by auto

lemma crawl_first_fetch:
  assumes "is_valid_mezzofy_url e (effective_start_url req)" and "1 \<le> max_pages req"
  shows "take 1 (fetched (crawl e req)) = [effective_start_url req]"
  using crawl_accepted(1) [OF assms(1)] first_request [OF assms(2)]
  by (simp add: final_state_def)

section \<open>The database does not steer the traversal\<close>

lemma is_valid_db_indep:
  "is_valid_mezzofy_url (e\<lparr>create_document := f\<rparr>) u = is_valid_mezzofy_url e u"
  by (simp add: is_valid_mezzofy_url_def urlparse_def checknetloc_def Let_def split: prod.splits)

lemma extract_info_db_indep:
  "extract_info (e\<lparr>create_document := f\<rparr>) u s = extract_info e u s"
  by (simp add: extract_info_def Let_def split: option.splits)

lemma fetch_page_db_indep:
  "fetch_page (e\<lparr>create_document := f\<rparr>) n u = fetch_page e n u"
  by (simp add: fetch_page_def split: http_result.splits)

lemma discover_error_db_indep:
  "discover_error (e\<lparr>create_document := f\<rparr>) c hs = discover_error e c hs"
  by (induction hs) (simp_all add: Let_def split: option.splits)

lemmas db_indep =
  is_valid_db_indep extract_info_db_indep fetch_page_db_indep discover_error_db_indep

lemma discover_traversal:
  assumes "traversal st' = traversal st"
  shows "traversal (fst (discover (e\<lparr>create_document := f\<rparr>) c hs st'))
           = traversal (fst (discover e c hs st))"
  using assms
proof (induction hs arbitrary: st st')
  case Nil
  then show ?case by (simp add: db_indep)
next
  case (Cons a as)
  have ih: "traversal (fst (discover (e\<lparr>create_document := f\<rparr>) c as s'))
              = traversal (fst (discover e c as s))" if "traversal s' = traversal s" for s s'
    using that by (rule Cons.IH)
  from Cons.prems
  have q: "to_visit st' = to_visit st" "visited st' = visited st" "requests st' = requests st"
    by (simp_all add: traversal_def)
  have up: "traversal (st'\<lparr>to_visit := to_visit st @ [u]\<rparr>)
              = traversal (st\<lparr>to_visit := to_visit st @ [u]\<rparr>)" for u
    using q by (simp add: db_indep traversal_def)
  show ?case
    using Cons.prems q ih [OF Cons.prems] ih [OF up]
    by (simp add: db_indep Let_def split: option.splits)
qed

lemma loop_body_traversal:
  assumes "traversal st' = traversal st"
  shows "traversal (fst (loop_body (e\<lparr>create_document := f\<rparr>) st'))
           = traversal (fst (loop_body e st))
         \<and> snd (loop_body (e\<lparr>create_document := f\<rparr>) st') = snd (loop_body e st)"
proof -
  from assms
  have q: "to_visit st' = to_visit st" "visited st' = visited st" "requests st' = requests st"
    by (simp_all add: traversal_def)
  show ?thesis
  proof (cases "to_visit st")
    case Nil
    with q assms show ?thesis by (simp add: db_indep loop_body_def)
  next
    case (Cons current rest)
    with q have tv': "to_visit st' = current # rest" by (simp add: db_indep)
    show ?thesis
    proof (cases "current |\<in>| visited st")
      case True
      with q have "current |\<in>| visited st'" by (simp add: db_indep)
      from loop_body_skip [OF tv' this] loop_body_skip [OF Cons True] q
      show ?thesis by (simp add: db_indep traversal_def)
    next
      case False
      with q have F': "current |\<notin>| visited st'" by (simp add: db_indep)
      show ?thesis
      proof (cases "fetch_page e (length (requests st)) current")
        case None
        with q have "fetch_page (e\<lparr>create_document := f\<rparr>) (length (requests st')) current = None"
          by (simp add: db_indep)
        from loop_body_fetch_failed [OF tv' F' this] loop_body_fetch_failed [OF Cons False None] q
        show ?thesis by (simp add: db_indep traversal_def)
      next
        case (Some sp)
        with q have S': "fetch_page (e\<lparr>create_document := f\<rparr>) (length (requests st')) current
                           = Some sp"
          by (simp add: db_indep)
        show ?thesis
        proof (cases "extract_info e current sp")
          case (Inl err)
          then have "extract_info (e\<lparr>create_document := f\<rparr>) current sp = Inl err" by (simp add: db_indep)
          from loop_body_invalid_page [OF tv' F' S' this]
            loop_body_invalid_page [OF Cons False Some Inl] q
          show ?thesis by (simp add: db_indep traversal_def)
        next
          case (Inr pg)
          then have I': "extract_info (e\<lparr>create_document := f\<rparr>) current sp = Inr pg" by (simp add: db_indep)
          note a = loop_body_page [OF tv' F' S' I']
          note b = loop_body_page [OF Cons False Some Inr]
          have t: "traversal (fst (loop_body (e\<lparr>create_document := f\<rparr>) st'))
                     = traversal (fst (loop_body e st))"
            unfolding a b
            by (rule discover_traversal) (simp add: db_indep traversal_def save_page_fields q)
          have "snd (loop_body (e\<lparr>create_document := f\<rparr>) st') = snd (loop_body e st)"
            unfolding a b by (simp add: db_indep discover_snd)
          with t show ?thesis by (simp add: db_indep)
        qed
      qed
    qed
  qed
qed

lemma loop_cond_traversal:
  "traversal st' = traversal st \<Longrightarrow> loop_cond mp st' = loop_cond mp st"
  by (simp add: db_indep traversal_def loop_cond_def)

lemma crawl_loop_traversal:
  assumes "traversal st' = traversal st"
  shows "traversal (fst (crawl_loop (e\<lparr>create_document := f\<rparr>) mp st'))
           = traversal (fst (crawl_loop e mp st))
         \<and> snd (crawl_loop (e\<lparr>create_document := f\<rparr>) mp st') = snd (crawl_loop e mp st)"
  using assms
proof (induction e mp st arbitrary: st' rule: crawl_loop.induct)
  case (1 e mp st)
  note lc = loop_cond_traversal [OF "1.prems", of mp]
  show ?case
  proof (cases "loop_cond mp st")
    case False
    with lc "1.prems" show ?thesis by (simp add: db_indep crawl_loop_stop)
  next
    case True
    with lc have T': "loop_cond mp st'" by (simp add: db_indep)
    note lb = loop_body_traversal [OF "1.prems", where e = e and f = f]
    show ?thesis
    proof (cases "snd (loop_body e st)")
      case None
      with lb have N': "snd (loop_body (e\<lparr>create_document := f\<rparr>) st') = None" by (simp add: db_indep)
      have "traversal (fst (crawl_loop (e\<lparr>create_document := f\<rparr>) mp
                              (fst (loop_body (e\<lparr>create_document := f\<rparr>) st'))))
              = traversal (fst (crawl_loop e mp (fst (loop_body e st))))
            \<and> snd (crawl_loop (e\<lparr>create_document := f\<rparr>) mp
                              (fst (loop_body (e\<lparr>create_document := f\<rparr>) st')))
              = snd (crawl_loop e mp (fst (loop_body e st)))"
      proof (rule "1.IH" [OF True _ None])
        show "(fst (loop_body e st), snd (loop_body e st)) = loop_body e st" by (simp add: db_indep)
        from lb show "traversal (fst (loop_body (e\<lparr>create_document := f\<rparr>) st'))
                        = traversal (fst (loop_body e st))" by (simp add: db_indep)
      qed
      with True T' None N' show ?thesis by (simp add: db_indep crawl_loop_step)
    next
      case (Some err)
      with lb have "snd (loop_body (e\<lparr>create_document := f\<rparr>) st') = Some err" by (simp add: db_indep)
      with True T' Some lb show ?thesis by (simp add: db_indep crawl_loop_step)
    qed
  qed
qed

lemma final_state_traversal:
  "traversal (final_state (e\<lparr>create_document := f\<rparr>) req) = traversal (final_state e req)"
  unfolding final_state_def using crawl_loop_traversal [OF refl] by blast

lemma crawl_db_indep:
  "fetched (crawl (e\<lparr>create_document := f\<rparr>) req) = fetched (crawl e req)"
  "map_sum id visited_count (result (crawl (e\<lparr>create_document := f\<rparr>) req))
     = map_sum id visited_count (result (crawl e req))"
proof -
  let ?e' = "e\<lparr>create_document := f\<rparr>"
  let ?i = "init_state (effective_start_url req)"
  from crawl_loop_traversal [OF refl, where e = e and f = f and mp = "max_pages req" and st = ?i]
  have t: "requests (fst (crawl_loop ?e' (max_pages req) ?i))
             = requests (fst (crawl_loop e (max_pages req) ?i))"
    "visited (fst (crawl_loop ?e' (max_pages req) ?i))
             = visited (fst (crawl_loop e (max_pages req) ?i))"
    "snd (crawl_loop ?e' (max_pages req) ?i) = snd (crawl_loop e (max_pages req) ?i)"
    by (simp_all add: traversal_def)
  obtain s1 r1 where a: "crawl_loop ?e' (max_pages req) ?i = (s1, r1)"
    by (cases "crawl_loop ?e' (max_pages req) ?i")
  obtain s2 r2 where b: "crawl_loop e (max_pages req) ?i = (s2, r2)"
    by (cases "crawl_loop e (max_pages req) ?i")
  from t a b have u: "requests s1 = requests s2" "visited s1 = visited s2" "r1 = r2"
    by (simp_all add: db_indep)
  show "fetched (crawl ?e' req) = fetched (crawl e req)"
    using u by (simp add: db_indep crawl_def Let_def a b split: option.splits)
  show "map_sum id visited_count (result (crawl ?e' req))
          = map_sum id visited_count (result (crawl e req))"
    using u by (simp add: db_indep crawl_def Let_def a b split: option.splits)
qed

section \<open>The fields of an extracted page\<close>

lemma find_tag_no_attrs: "find_tag s nm [] = List.find (\<lambda>t. tag_name t = nm) (soup_tags s)"
  by (simp add: find_tag_def)

lemma find_none: "\<forall>t \<in> set ts. \<not> P t \<Longrightarrow> List.find P ts = None"
  by (simp add: find_None_iff)

lemma find_first: "\<forall>t \<in> set pre. \<not> P t \<Longrightarrow> P x \<Longrightarrow> List.find P (pre @ x # post) = Some x"
  by (induction pre) simp_all

lemma extract_info_fields:
  assumes "extract_info e u s = Inr pg"
  shows "keywords_matched pg
           = sorted_list_of_set (set (filter (contains (lower e (soup_text s))) KEYWORDS))"
    and "snippet pg =
           (case find_tag s (str ''p'') [] of
              None \<Rightarrow> None
            | Some p \<Rightarrow> if tag_text p \<noteq> [] then Some (take 240 (py_strip (tag_text p))) else None)"
    and "title pg =
           (case find_tag s (str ''title'') [] of
              None \<Rightarrow> None
            | Some t \<Rightarrow>
                (case tag_string t of
                   None \<Rightarrow> None
                 | Some x \<Rightarrow> if x \<noteq> [] then Some (py_strip x) else None))"
  using assms by (auto simp: extract_info_def Let_def split: option.splits)

lemma keywords_list:
  "set KEYWORDS = str ` {''sme'', ''smb'', ''pricing'', ''features'', ''merchant'', ''e-commerce'',
      ''ecommerce'', ''pos'', ''coupon'', ''loyalty'', ''reward'', ''subscription'', ''payment'',
      ''api'', ''docs''}"
  by (simp add: KEYWORDS_def)

lemma seed_soup_tags:
  "soup_tags seed_soup = [seed_title, seed_meta] @ seed_paragraph # [features_link, out_link]"
  "soup_tags seed_soup = [] @ seed_title # [seed_meta, seed_paragraph, features_link, out_link]"
  by (simp_all add: seed_soup_def seed_title_def seed_meta_def seed_paragraph_def
      features_link_def out_link_def)

lemma seed_extract: "extract_info demo_env BASE_DOMAIN seed_soup = Inr seed_page"
  by (simp add: seed_page_def run_eval_defs str_def ascii_lower_def)

section \<open>The claims\<close>

text \<open>
  C1. The claim: a URL is in scope exactly when its scheme is http or https and its host
  is the root domain or ends with it after a dot; a host such as notmezzofy.com, which
  only ends in the characters of the root domain, is out of scope. The validator compares
  the end of the network location with \<^verbatim>\<open>mezzofy.com\<close> and asks for no dot before it:
  it accepts \<^verbatim>\<open>https://notmezzofy.com\<close>, in every environment.
\<close>

theorem is_valid_mezzofy_url_accepts_notmezzofy:
  "is_valid_mezzofy_url e (str ''https://notmezzofy.com'') = True"
  by (simp add: url_eval_defs)

text \<open>
  C2. The claim: \<^verbatim>\<open>crawl\<close> fails with the error 400 and fetches nothing exactly when the
  start URL is out of scope, and so for \<^verbatim>\<open>https://notmezzofy.com\<close>. The code raises the
  error exactly when the validator rejects the start URL (\<open>crawl_400_iff\<close>,
  \<open>crawl_rejected\<close>), but the validator accepts \<^verbatim>\<open>https://notmezzofy.com\<close>: in every
  environment the call does not fail with the error 400, and its first request goes to
  that URL.
\<close>

theorem crawl_fetches_notmezzofy:
  "result (crawl e \<lparr>start_url = Some (str ''https://notmezzofy.com''), max_pages = 20\<rparr>)
     \<noteq> Inl (HTTPException 400 (str ''start_url must be mezzofy.com''))
   \<and> take 1 (fetched (crawl e \<lparr>start_url = Some (str ''https://notmezzofy.com''), max_pages = 20\<rparr>))
       = [str ''https://notmezzofy.com'']"
proof -
  let ?req = "\<lparr>start_url = Some (str ''https://notmezzofy.com''), max_pages = 20\<rparr>"
  have s: "effective_start_url ?req = str ''https://notmezzofy.com''"
    by (simp add: effective_start_url_def str_def)
  have v: "is_valid_mezzofy_url e (effective_start_url ?req)"
    unfolding s by (simp add: url_eval_defs)
  have m: "1 \<le> max_pages ?req" by simp
  from crawl_400_iff [of e ?req] v crawl_first_fetch [OF v m] s show ?thesis by simp
qed

text \<open>
  C3. An iteration that fetched and extracted a page goes on to the link loop from a
  state in which the page was passed to \<^verbatim>\<open>create_document\<close> exactly when its
  \<open>keywords_matched\<close> is not empty, and \<open>saved\<close> grew by one exactly when that call
  returned; whether the iteration raises depends on the links only. Whatever the database
  does (\<open>f\<close> is any other behaviour of \<^verbatim>\<open>create_document\<close>), an iteration leaves the same
  queue, visited set and requests and raises the same exception or none, and a run sends
  the same requests and ends the same way with the same \<open>visited\<close> count: a failed insert
  never aborts the crawl. Every page a run passed to the database matched a keyword, and
  a run that returns reports a \<open>saved\<close> count equal to the number of inserts that
  returned, which is at most the \<open>visited\<close> count.
\<close>

theorem page_saved_iff_keywords:
  "(to_visit st = current # rest \<and> current |\<notin>| visited st
      \<and> fetch_page e (length (requests st)) current = Some sp
      \<and> extract_info e current sp = Inr pg
      \<longrightarrow> loop_body e st =
            discover e current (find_all_a_href sp)
              (if keywords_matched pg \<noteq> []
               then st\<lparr>to_visit := rest, visited := finsert current (visited st),
                       requests := requests st @ [current],
                       saved := saved st
                                + (if create_document e (length (inserts st)) pg then 1 else 0),
                       inserts := inserts st
                                  @ [(pg, create_document e (length (inserts st)) pg)]\<rparr>
               else st\<lparr>to_visit := rest, visited := finsert current (visited st),
                       requests := requests st @ [current]\<rparr>)
          \<and> inserts (fst (loop_body e st)) =
            inserts st @ (if keywords_matched pg \<noteq> []
                          then [(pg, create_document e (length (inserts st)) pg)] else [])
          \<and> saved (fst (loop_body e st)) =
            saved st + (if keywords_matched pg \<noteq> [] \<and> create_document e (length (inserts st)) pg
                        then 1 else 0)
          \<and> snd (loop_body e st) = discover_error e current (find_all_a_href sp))
   \<and> to_visit (fst (loop_body (e\<lparr>create_document := f\<rparr>) st)) = to_visit (fst (loop_body e st))
   \<and> visited (fst (loop_body (e\<lparr>create_document := f\<rparr>) st)) = visited (fst (loop_body e st))
   \<and> requests (fst (loop_body (e\<lparr>create_document := f\<rparr>) st)) = requests (fst (loop_body e st))
   \<and> snd (loop_body (e\<lparr>create_document := f\<rparr>) st) = snd (loop_body e st)
   \<and> fetched (crawl (e\<lparr>create_document := f\<rparr>) req) = fetched (crawl e req)
   \<and> map_sum id visited_count (result (crawl (e\<lparr>create_document := f\<rparr>) req))
       = map_sum id visited_count (result (crawl e req))
   \<and> (\<forall>x \<in> set (submitted (crawl e req)). keywords_matched (fst x) \<noteq> [])
   \<and> (result (crawl e req) = Inr s
      \<longrightarrow> saved_count s = length (filter snd (submitted (crawl e req)))
          \<and> saved_count s \<le> visited_count s)"
proof (intro conjI impI)
  assume a: "to_visit st = current # rest \<and> current |\<notin>| visited st
      \<and> fetch_page e (length (requests st)) current = Some sp
      \<and> extract_info e current sp = Inr pg"
  then have b: "loop_body e st =
           discover e current (find_all_a_href sp)
             (if keywords_matched pg \<noteq> []
              then save_page e pg (st\<lparr>to_visit := rest, visited := finsert current (visited st),
                                       requests := requests st @ [current]\<rparr>)
              else st\<lparr>to_visit := rest, visited := finsert current (visited st),
                      requests := requests st @ [current]\<rparr>)"
    by (simp add: loop_body_page)
  show "loop_body e st =
            discover e current (find_all_a_href sp)
              (if keywords_matched pg \<noteq> []
               then st\<lparr>to_visit := rest, visited := finsert current (visited st),
                       requests := requests st @ [current],
                       saved := saved st
                                + (if create_document e (length (inserts st)) pg then 1 else 0),
                       inserts := inserts st
                                  @ [(pg, create_document e (length (inserts st)) pg)]\<rparr>
               else st\<lparr>to_visit := rest, visited := finsert current (visited st),
                       requests := requests st @ [current]\<rparr>)"
    unfolding b by (simp add: save_page_def Let_def)
  show "inserts (fst (loop_body e st)) =
            inserts st @ (if keywords_matched pg \<noteq> []
                          then [(pg, create_document e (length (inserts st)) pg)] else [])"
    unfolding b by (simp add: discover_inserts save_page_fields)
  show "saved (fst (loop_body e st)) =
            saved st + (if keywords_matched pg \<noteq> [] \<and> create_document e (length (inserts st)) pg
                        then 1 else 0)"
    unfolding b by (simp add: discover_saved save_page_fields)
  show "snd (loop_body e st) = discover_error e current (find_all_a_href sp)"
    unfolding b by (rule discover_snd)
next
  note t = loop_body_traversal [OF refl, where e = e and f = f and st = st]
  from t show "to_visit (fst (loop_body (e\<lparr>create_document := f\<rparr>) st))
                 = to_visit (fst (loop_body e st))"
    by (simp add: traversal_def)
  from t show "visited (fst (loop_body (e\<lparr>create_document := f\<rparr>) st))
                 = visited (fst (loop_body e st))"
    by (simp add: traversal_def)
  from t show "requests (fst (loop_body (e\<lparr>create_document := f\<rparr>) st))
                 = requests (fst (loop_body e st))"
    by (simp add: traversal_def)
  from t show "snd (loop_body (e\<lparr>create_document := f\<rparr>) st) = snd (loop_body e st)"
    by simp
next
  show "fetched (crawl (e\<lparr>create_document := f\<rparr>) req) = fetched (crawl e req)"
    by (rule crawl_db_indep(1))
  show "map_sum id visited_count (result (crawl (e\<lparr>create_document := f\<rparr>) req))
          = map_sum id visited_count (result (crawl e req))"
    by (rule crawl_db_indep(2))
next
  show "\<forall>x \<in> set (submitted (crawl e req)). keywords_matched (fst x) \<noteq> []"
    by (rule crawl_traces_inv(2))
next
  assume r: "result (crawl e req) = Inr s"
  show "saved_count s = length (filter snd (submitted (crawl e req)))"
    by (rule crawl_result_counts(2) [OF r])
  have "length (filter snd (submitted (crawl e req))) \<le> length (submitted (crawl e req))"
    by (rule length_filter_le)
  with crawl_result_counts(1,2) [OF r] crawl_traces_inv(3) [of e req]
  show "saved_count s \<le> visited_count s" by linarith
qed

theorem page_saved_iff_keywords_witness:
  "to_visit (init_state BASE_DOMAIN) = BASE_DOMAIN # []
   \<and> BASE_DOMAIN |\<notin>| visited (init_state BASE_DOMAIN)
   \<and> fetch_page no_db_env (length (requests (init_state BASE_DOMAIN))) BASE_DOMAIN = Some seed_soup
   \<and> extract_info no_db_env BASE_DOMAIN seed_soup = Inr seed_page
   \<and> keywords_matched seed_page \<noteq> []
   \<and> \<not> create_document no_db_env 0 seed_page
   \<and> loop_body no_db_env (init_state BASE_DOMAIN) =
       (\<lparr>to_visit = [features_url], visited = {|BASE_DOMAIN|}, saved = 0,
         requests = [BASE_DOMAIN], inserts = [(seed_page, False)]\<rparr>, None)
   \<and> loop_body demo_env (init_state BASE_DOMAIN) =
       (\<lparr>to_visit = [features_url], visited = {|BASE_DOMAIN|}, saved = 1,
         requests = [BASE_DOMAIN], inserts = [(seed_page, True)]\<rparr>, None)
   \<and> fetched (crawl no_db_env \<lparr>start_url = None, max_pages = 2\<rparr>)
       = fetched (crawl demo_env \<lparr>start_url = None, max_pages = 2\<rparr>)
   \<and> fetched (crawl no_db_env \<lparr>start_url = None, max_pages = 2\<rparr>) = [BASE_DOMAIN, features_url]
   \<and> result (crawl no_db_env \<lparr>start_url = None, max_pages = 2\<rparr>)
       = Inr \<lparr>visited_count = 2, saved_count = 0\<rparr>
   \<and> result (crawl demo_env \<lparr>start_url = None, max_pages = 2\<rparr>)
       = Inr \<lparr>visited_count = 2, saved_count = 1\<rparr>
   \<and> submitted (crawl no_db_env \<lparr>start_url = None, max_pages = 2\<rparr>) = [(seed_page, False)]
   \<and> snd (loop_body no_db_env (init_state BASE_DOMAIN))
       = discover_error no_db_env BASE_DOMAIN (find_all_a_href seed_soup)"
proof -
  have e: "no_db_env\<lparr>create_document := (\<lambda>n pg. True)\<rparr> = demo_env"
    by (simp add: no_db_env_def demo_env_def)
  have f: "fetch_page no_db_env (length (requests (init_state BASE_DOMAIN))) BASE_DOMAIN
             = Some seed_soup"
    by (simp add: fetch_page_def no_db_env_def demo_env_def init_state_def)
  have x: "extract_info no_db_env BASE_DOMAIN seed_soup = Inr seed_page"
    by (simp add: seed_page_def run_eval_defs str_def ascii_lower_def)
  have k: "keywords_matched seed_page \<noteq> []"
    by (simp add: seed_page_def)
  have d: "\<not> create_document no_db_env 0 seed_page"
    by (simp add: no_db_env_def)
  have l: "loop_body no_db_env (init_state BASE_DOMAIN) =
       (\<lparr>to_visit = [features_url], visited = {|BASE_DOMAIN|}, saved = 0,
         requests = [BASE_DOMAIN], inserts = [(seed_page, False)]\<rparr>, None)"
    by (simp add: seed_page_def features_url_def run_eval_defs url_eval_defs)
  have l': "loop_body demo_env (init_state BASE_DOMAIN) =
       (\<lparr>to_visit = [features_url], visited = {|BASE_DOMAIN|}, saved = 1,
         requests = [BASE_DOMAIN], inserts = [(seed_page, True)]\<rparr>, None)"
    by (simp add: seed_page_def features_url_def run_eval_defs url_eval_defs)
  have c: "crawl no_db_env \<lparr>start_url = None, max_pages = 2\<rparr> =
             \<lparr>fetched = [BASE_DOMAIN, features_url],
              submitted = [(seed_page, False)],
              result = Inr \<lparr>visited_count = 2, saved_count = 0\<rparr>\<rparr>"
    by (simp add: seed_page_def features_url_def run_eval_defs url_eval_defs)
  have c': "result (crawl demo_env \<lparr>start_url = None, max_pages = 2\<rparr>)
              = Inr \<lparr>visited_count = 2, saved_count = 1\<rparr>"
    by (simp add: run_eval_defs url_eval_defs)
  note T = page_saved_iff_keywords [where st = "init_state BASE_DOMAIN" and current = BASE_DOMAIN
      and rest = "[]" and e = no_db_env and sp = seed_soup and pg = seed_page
      and f = "\<lambda>n pg. True" and req = "\<lparr>start_url = None, max_pages = 2\<rparr>"
      and s = "\<lparr>visited_count = 2, saved_count = 0\<rparr>"]
  have tv: "to_visit (init_state BASE_DOMAIN) = BASE_DOMAIN # []"
    by (simp add: init_state_def)
  have nv: "BASE_DOMAIN |\<notin>| visited (init_state BASE_DOMAIN)"
    by (simp add: init_state_def)
  from T [THEN conjunct1, THEN mp, OF conjI [OF tv conjI [OF nv conjI [OF f x]]]]
  have h: "snd (loop_body no_db_env (init_state BASE_DOMAIN))
          = discover_error no_db_env BASE_DOMAIN (find_all_a_href seed_soup)"
    by (elim conjE)
  from T [THEN conjunct2, THEN conjunct2, THEN conjunct2, THEN conjunct2, THEN conjunct2,
      THEN conjunct1]
  have g: "fetched (crawl demo_env \<lparr>start_url = None, max_pages = 2\<rparr>)
             = fetched (crawl no_db_env \<lparr>start_url = None, max_pages = 2\<rparr>)"
    unfolding e .
  from c have c1: "fetched (crawl no_db_env \<lparr>start_url = None, max_pages = 2\<rparr>)
                     = [BASE_DOMAIN, features_url]"
    and c2: "result (crawl no_db_env \<lparr>start_url = None, max_pages = 2\<rparr>)
               = Inr \<lparr>visited_count = 2, saved_count = 0\<rparr>"
    and c3: "submitted (crawl no_db_env \<lparr>start_url = None, max_pages = 2\<rparr>)
               = [(seed_page, False)]"
    by simp_all
  show ?thesis
    using tv nv f x k d l l' g c1 c2 c' c3 h by (intro conjI) simp_all
qed

text \<open>
  C4, as the claim states it: for any \<open>max_pages\<close> the returned visited count is at most
  \<open>max_pages\<close>. With \<open>max_pages = -1\<close> the loop does not run and the call returns the
  visited count 0, which is greater than \<open>-1\<close>.
\<close>

theorem negative_budget_counterexample:
  "result (crawl demo_env \<lparr>start_url = None, max_pages = - 1\<rparr>)
     = Inr \<lparr>visited_count = 0, saved_count = 0\<rparr>
   \<and> \<not> int (visited_count \<lparr>visited_count = 0, saved_count = 0\<rparr>)
         \<le> max_pages \<lparr>start_url = None, max_pages = - 1\<rparr>"
  by (simp add: crawl_def effective_start_url_def base_domain_in_scope crawl_loop.simps
      loop_cond_def init_state_def fcard_fempty)

text \<open>
  C4, amended: in every state the loop reaches, and in the summary returned, the number
  of visited URLs is at most \<open>max_pages\<close> when \<open>max_pages\<close> is not negative, and is 0 when it
  is negative: it is at most \<open>max 0 max_pages\<close>.
\<close>

theorem visited_within_budget:
  "(reachable e (max_pages req) (effective_start_url req) st
      \<longrightarrow> int (fcard (visited st)) \<le> max 0 (max_pages req))
   \<and> (result (crawl e req) = Inr s \<longrightarrow> int (visited_count s) \<le> max 0 (max_pages req))"
  using reachable_bound [of e "max_pages req" "effective_start_url req" st]
    crawl_result_counts(3) [of e req s]
  by blast

theorem visited_within_budget_witness:
  "reachable demo_env (max_pages \<lparr>start_url = None, max_pages = 2\<rparr>)
     (effective_start_url \<lparr>start_url = None, max_pages = 2\<rparr>) (init_state BASE_DOMAIN)
   \<and> result (crawl demo_env \<lparr>start_url = None, max_pages = 2\<rparr>)
       = Inr \<lparr>visited_count = 2, saved_count = 1\<rparr>
   \<and> int (fcard (visited (init_state BASE_DOMAIN))) \<le> max 0 2
   \<and> int (visited_count \<lparr>visited_count = 2, saved_count = 1\<rparr>) \<le> max 0 2"
proof -
  have r: "reachable demo_env (max_pages \<lparr>start_url = None, max_pages = 2\<rparr>)
     (effective_start_url \<lparr>start_url = None, max_pages = 2\<rparr>) (init_state BASE_DOMAIN)"
    by (simp add: effective_start_url_def reach_init)
  have c: "result (crawl demo_env \<lparr>start_url = None, max_pages = 2\<rparr>)
       = Inr \<lparr>visited_count = 2, saved_count = 1\<rparr>"
    by (simp add: run_eval_defs url_eval_defs)
  from visited_within_budget [of demo_env "\<lparr>start_url = None, max_pages = 2\<rparr>"
      "init_state BASE_DOMAIN" "\<lparr>visited_count = 2, saved_count = 1\<rparr>"] r c
  show ?thesis by simp
qed

text \<open>
  C5. A link that resolves to \<open>absolute\<close> is appended to the queue exactly when
  \<open>absolute\<close> is in scope, is not visited and is not in the queue; in every state the loop
  reaches the queue has no duplicates and holds no visited URL, and the requests sent are
  the visited URLs, each once; the requests of a whole run are pairwise distinct.
\<close>

theorem url_fetched_at_most_once:
  "(tag_get a (str ''href'') = Some h \<and> \<not> startswith (py_strip h) (str ''#'')
      \<and> \<not> startswith (py_strip h) (str ''mailto:'')
      \<and> urljoin e current (py_strip h) = Some absolute
      \<longrightarrow> discover e current (a # as) st =
            discover e current as
              (if is_valid_mezzofy_url e absolute \<and> absolute |\<notin>| visited st
                  \<and> absolute \<notin> set (to_visit st)
               then st\<lparr>to_visit := to_visit st @ [absolute]\<rparr> else st))
   \<and> (reachable e mp start st'
      \<longrightarrow> distinct (to_visit st') \<and> (\<forall>u \<in> set (to_visit st'). u |\<notin>| visited st')
          \<and> distinct (requests st') \<and> set (requests st') = fset (visited st'))
   \<and> distinct (fetched (crawl e req))"
proof (intro conjI impI)
  assume "tag_get a (str ''href'') = Some h \<and> \<not> startswith (py_strip h) (str ''#'')
      \<and> \<not> startswith (py_strip h) (str ''mailto:'')
      \<and> urljoin e current (py_strip h) = Some absolute"
  then show "discover e current (a # as) st =
            discover e current as
              (if is_valid_mezzofy_url e absolute \<and> absolute |\<notin>| visited st
                  \<and> absolute \<notin> set (to_visit st)
               then st\<lparr>to_visit := to_visit st @ [absolute]\<rparr> else st)"
    by (simp add: Let_def)
next
  assume "reachable e mp start st'"
  then have i: "crawl_inv st'" by (rule reachable_inv)
  from i show "distinct (to_visit st')" by (simp add: crawl_inv_def)
  from i show "\<forall>u \<in> set (to_visit st'). u |\<notin>| visited st'" by (simp add: crawl_inv_def)
  from i show "distinct (requests st')" by (simp add: crawl_inv_def)
  from i show "set (requests st') = fset (visited st')" by (simp add: crawl_inv_def)
next
  show "distinct (fetched (crawl e req))" by (rule crawl_traces_inv(1))
qed

theorem url_fetched_at_most_once_witness:
  "tag_get features_link (str ''href'') = Some features_url
   \<and> \<not> startswith (py_strip features_url) (str ''#'')
   \<and> \<not> startswith (py_strip features_url) (str ''mailto:'')
   \<and> urljoin demo_env BASE_DOMAIN (py_strip features_url) = Some features_url
   \<and> discover demo_env BASE_DOMAIN [features_link] (init_state BASE_DOMAIN)
       = ((init_state BASE_DOMAIN)\<lparr>to_visit := [BASE_DOMAIN, features_url]\<rparr>, None)
   \<and> reachable demo_env 2 BASE_DOMAIN (init_state BASE_DOMAIN)
   \<and> distinct (to_visit (init_state BASE_DOMAIN))
   \<and> distinct (fetched (crawl demo_env \<lparr>start_url = None, max_pages = 2\<rparr>))"
proof -
  have p: "py_strip features_url = features_url"
    by (simp add: features_url_def py_strip_def py_isspace_def str_def)
  have h: "tag_get features_link (str ''href'') = Some features_url"
    by (simp add: tag_get_def features_link_def features_url_def)
  have n: "\<not> startswith features_url (str ''#'')" "\<not> startswith features_url (str ''mailto:'')"
    by (simp_all add: startswith_def features_url_def str_def)
  have j: "urljoin demo_env BASE_DOMAIN features_url = Some features_url"
    by (simp add: demo_env_def)
  have v: "is_valid_mezzofy_url demo_env features_url"
    by (simp add: features_url_def url_eval_defs)
  have f: "features_url \<noteq> BASE_DOMAIN"
    by (simp add: features_url_def BASE_DOMAIN_def str_def)
  have r: "reachable demo_env 2 BASE_DOMAIN (init_state BASE_DOMAIN)"
    by (rule reach_init)
  from url_fetched_at_most_once [of features_link features_url demo_env BASE_DOMAIN
      features_url "[]" "init_state BASE_DOMAIN" 2 BASE_DOMAIN "init_state BASE_DOMAIN"
      "\<lparr>start_url = None, max_pages = 2\<rparr>"]
    p h n j v f r
  show ?thesis
    by (simp add: init_state_def)
qed



text \<open>
  C7. The \<open>keywords_matched\<close> of an extracted page holds exactly the terms of the fixed
  keyword list that occur as substrings of the lower-cased \<^verbatim>\<open>soup.get_text(" ")\<close>, without
  duplicates, in strictly ascending lexicographic order of their code points.
\<close>

theorem keywords_matched_sorted_set:
  assumes "extract_info e u s = Inr pg"
  shows "set (keywords_matched pg)
           = {kw \<in> str ` {''sme'', ''smb'', ''pricing'', ''features'', ''merchant'', ''e-commerce'',
                  ''ecommerce'', ''pos'', ''coupon'', ''loyalty'', ''reward'', ''subscription'',
                  ''payment'', ''api'', ''docs''}.
                \<exists>ps ss. lower e (soup_text s) = ps @ kw @ ss}
         \<and> distinct (keywords_matched pg)
         \<and> sorted_wrt (\<lambda>a b. (a, b) \<in> lexord {(x, y). x < y}) (keywords_matched pg)"
proof -
  let ?text = "lower e (soup_text s)"
  let ?M = "set (filter (contains ?text) KEYWORDS)"
  have k: "keywords_matched pg = sorted_list_of_set ?M"
    by (rule extract_info_fields(1) [OF assms])
  have "set (keywords_matched pg) = ?M"
    unfolding k by simp
  also have "\<dots> = {kw \<in> set KEYWORDS. \<exists>ps ss. ?text = ps @ kw @ ss}"
    by (auto simp: contains_iff_sublist sublist_def)
  finally have a: "set (keywords_matched pg)
      = {kw \<in> set KEYWORDS. \<exists>ps ss. ?text = ps @ kw @ ss}" .
  have b: "distinct (keywords_matched pg)"
    unfolding k by simp
  have lt: "(<) = (\<lambda>a b :: pystr. (a, b) \<in> lexord {(x, y). x < y})"
    by (intro ext) (simp add: list_less_def)
  have "sorted_wrt (<) (keywords_matched pg)"
    unfolding k by simp
  then have c: "sorted_wrt (\<lambda>a b. (a, b) \<in> lexord {(x, y). x < y}) (keywords_matched pg)"
    unfolding lt .
  from a b c show ?thesis
    unfolding keywords_list by simp
qed


theorem keywords_matched_sorted_set_witness:
  "extract_info demo_env BASE_DOMAIN seed_soup = Inr seed_page
   \<and> lower demo_env (soup_text seed_soup) = str ''mezzofy pricing  pricing and coupon  more out''
   \<and> keywords_matched seed_page = [str ''coupon'', str ''pricing'']
   \<and> set (keywords_matched seed_page)
       = {kw \<in> str ` {''sme'', ''smb'', ''pricing'', ''features'', ''merchant'', ''e-commerce'',
                  ''ecommerce'', ''pos'', ''coupon'', ''loyalty'', ''reward'', ''subscription'',
                  ''payment'', ''api'', ''docs''}.
                \<exists>ps ss. lower demo_env (soup_text seed_soup) = ps @ kw @ ss}
   \<and> sorted_wrt (\<lambda>a b. (a, b) \<in> lexord {(x, y). x < y}) (keywords_matched seed_page)"
proof -
  have x: "extract_info demo_env BASE_DOMAIN seed_soup = Inr seed_page"
    by (simp add: seed_page_def run_eval_defs str_def ascii_lower_def)
  have t: "lower demo_env (soup_text seed_soup)
             = str ''mezzofy pricing  pricing and coupon  more out''"
    by (simp add: demo_env_def seed_soup_def str_def ascii_lower_def)
  have k: "keywords_matched seed_page = [str ''coupon'', str ''pricing'']"
    by (simp add: seed_page_def)
  from keywords_matched_sorted_set [OF x] x t k show ?thesis
    by (intro conjI) (elim conjE, assumption)+
qed

text \<open>
  C8. The snippet of an extracted page is absent when the document has no \<^verbatim>\<open>p\<close> element;
  otherwise, with \<open>p\<close> the first \<^verbatim>\<open>p\<close> element in document order, it is absent when \<open>p\<close>
  has no text and is the stripped text of \<open>p\<close> cut to its first 240 code points when it
  has; a snippet is never longer than 240 code points.
\<close>

theorem snippet_first_paragraph:
  assumes "extract_info e u s = Inr pg"
  shows "((\<forall>t \<in> set (soup_tags s). tag_name t \<noteq> str ''p'') \<longrightarrow> snippet pg = None)
         \<and> (\<forall>pre p post.
               soup_tags s = pre @ p # post \<and> (\<forall>t \<in> set pre. tag_name t \<noteq> str ''p'')
                 \<and> tag_name p = str ''p''
               \<longrightarrow> snippet pg =
                     (if tag_text p = [] then None
                      else Some (take 240 (py_strip (tag_text p)))))
         \<and> (\<forall>sn. snippet pg = Some sn \<longrightarrow> length sn \<le> 240)"
proof (intro conjI allI impI)
  note f = extract_info_fields(2) [OF assms]
  {
    assume "\<forall>t \<in> set (soup_tags s). tag_name t \<noteq> str ''p''"
    then have "find_tag s (str ''p'') [] = None"
      unfolding find_tag_no_attrs by (rule find_none)
    with f show "snippet pg = None" by simp
  }
  {
    fix pre p post
    assume a: "soup_tags s = pre @ p # post \<and> (\<forall>t \<in> set pre. tag_name t \<noteq> str ''p'')
                 \<and> tag_name p = str ''p''"
    then have "find_tag s (str ''p'') [] = Some p"
      unfolding find_tag_no_attrs by (simp add: find_first)
    with f show "snippet pg =
                     (if tag_text p = [] then None
                      else Some (take 240 (py_strip (tag_text p))))"
      by simp
  }
  {
    fix sn
    assume "snippet pg = Some sn"
    with f show "length sn \<le> 240"
      by (auto split: option.splits if_splits)
  }
qed

theorem snippet_first_paragraph_witness:
  "extract_info demo_env BASE_DOMAIN seed_soup = Inr seed_page
   \<and> soup_tags seed_soup = [seed_title, seed_meta] @ seed_paragraph # [features_link, out_link]
   \<and> tag_name seed_title \<noteq> str ''p'' \<and> tag_name seed_meta \<noteq> str ''p''
   \<and> tag_name seed_paragraph = str ''p''
   \<and> tag_text seed_paragraph = str '' Pricing and coupon ''
   \<and> snippet seed_page = Some (take 240 (py_strip (tag_text seed_paragraph)))
   \<and> snippet seed_page = Some (str ''Pricing and coupon'')
   \<and> length (str ''Pricing and coupon'') \<le> 240"
proof -
  note T = snippet_first_paragraph [OF seed_extract]
  have n: "\<forall>t \<in> set [seed_title, seed_meta]. tag_name t \<noteq> str ''p''"
    by (simp add: seed_title_def seed_meta_def str_def)
  have p: "tag_name seed_paragraph = str ''p''"
    by (simp add: seed_paragraph_def)
  have x: "tag_text seed_paragraph = str '' Pricing and coupon ''"
    by (simp add: seed_paragraph_def)
  have ne: "tag_text seed_paragraph \<noteq> []"
    by (simp add: seed_paragraph_def str_def)
  have sn: "snippet seed_page = Some (str ''Pricing and coupon'')"
    by (simp add: seed_page_def)
  from T [THEN conjunct2, THEN conjunct1, rule_format,
      OF conjI [OF seed_soup_tags(1) conjI [OF n p]]] ne
  have a: "snippet seed_page = Some (take 240 (py_strip (tag_text seed_paragraph)))"
    by simp
  from T [THEN conjunct2, THEN conjunct2, rule_format, OF sn]
  have b: "length (str ''Pricing and coupon'') \<le> 240" .
  from n have n1: "tag_name seed_title \<noteq> str ''p''" and n2: "tag_name seed_meta \<noteq> str ''p''"
    by simp_all
  from seed_extract seed_soup_tags(1) n1 n2 p x a sn b show ?thesis
    by (intro conjI)
qed




text \<open>
  C10. With an in-scope start URL and \<open>max_pages \<le> 0\<close> the loop condition is false at
  once: the run sends no request and returns \<open>visited = 0\<close>, \<open>saved = 0\<close>.
\<close>

theorem crawl_zero_budget:
  assumes "is_valid_mezzofy_url e (effective_start_url req)" and "max_pages req \<le> 0"
  shows "\<not> loop_cond (max_pages req) (init_state (effective_start_url req))
         \<and> crawl e req = \<lparr>fetched = [], submitted = [],
                           result = Inr \<lparr>visited_count = 0, saved_count = 0\<rparr>\<rparr>"
  using assms
  by (simp add: crawl_def crawl_loop.simps loop_cond_def init_state_def fcard_fempty)

theorem crawl_zero_budget_witness:
  "is_valid_mezzofy_url demo_env (effective_start_url \<lparr>start_url = None, max_pages = 0\<rparr>)
   \<and> max_pages \<lparr>start_url = None, max_pages = 0\<rparr> \<le> 0
   \<and> crawl demo_env \<lparr>start_url = None, max_pages = 0\<rparr>
       = \<lparr>fetched = [], submitted = [], result = Inr \<lparr>visited_count = 0, saved_count = 0\<rparr>\<rparr>"
proof -
  have v: "is_valid_mezzofy_url demo_env (effective_start_url \<lparr>start_url = None, max_pages = 0\<rparr>)"
    by (simp add: effective_start_url_def base_domain_in_scope)
  have m: "max_pages \<lparr>start_url = None, max_pages = 0\<rparr> \<le> 0" by simp
  from crawl_zero_budget [OF v m] v m show ?thesis by simp
qed

end
